theory Spec2Isabelle
  imports Main "HOL-Library.Char_ord" "HOL-Library.List_Lexorder" "HOL-Library.Sublist"
begin

section \<open>Strings and characters\<close>

text \<open>
  A Python \<open>str\<close> is modelled as a \<open>string\<close>, one \<open>char\<close> per code point, for the
  code points below 256. The character classes below are those of Python's \<open>re\<close> module
  and of \<open>str.strip\<close> on that range.
\<close>

definition word_char :: "char \<Rightarrow> bool" where
  \<comment> \<open>the class \<open>\w\<close> of a \<open>str\<close> pattern: alphanumeric or underscore\<close>
  "word_char c =
     (let n = (of_char c :: nat) in
        (48 \<le> n \<and> n \<le> 57) \<or> (65 \<le> n \<and> n \<le> 90) \<or> n = 95 \<or> (97 \<le> n \<and> n \<le> 122)
        \<or> n = 170 \<or> n = 178 \<or> n = 179 \<or> n = 181 \<or> n = 185 \<or> n = 186
        \<or> n = 188 \<or> n = 189 \<or> n = 190
        \<or> (192 \<le> n \<and> n \<le> 214) \<or> (216 \<le> n \<and> n \<le> 246) \<or> 248 \<le> n)"

definition space_char :: "char \<Rightarrow> bool" where
  \<comment> \<open>the class \<open>\s\<close>, which is also what \<open>str.strip()\<close> removes\<close>
  "space_char c =
     (let n = (of_char c :: nat) in
        (9 \<le> n \<and> n \<le> 13) \<or> (28 \<le> n \<and> n \<le> 32) \<or> n = 133 \<or> n = 160)"

definition dot_char :: "char \<Rightarrow> bool" where
  \<comment> \<open>the class \<open>.\<close> without DOTALL: anything but a line feed\<close>
  "dot_char c = (c \<noteq> CHR 0x0A)"

fun split_on :: "char \<Rightarrow> string \<Rightarrow> string list" where
  \<comment> \<open>\<open>s.split(sep)\<close> for a one-character separator\<close>
  "split_on sep [] = [] # []"
| "split_on sep (c # cs) =
     (if c = sep then [] # split_on sep cs
      else (case split_on sep cs of
              [] \<Rightarrow> [c # []]
            | x # xs \<Rightarrow> (c # x) # xs))"

definition last_n :: "nat \<Rightarrow> string \<Rightarrow> string" where
  \<comment> \<open>the slice \<open>s[-n:]\<close> for \<open>n > 0\<close>: the whole string when it is shorter than \<open>n\<close>\<close>
  "last_n n s = drop (length s - n) s"

section \<open>Exceptions\<close>

text \<open>
  \<open>py_exn\<close> lists the built-in exceptions that the indexing of the source and the
  library calls it makes can raise; \<open>error\<close> is what a function of the module raises:
  such an exception unchanged, or one of the module's two classes wrapping it.
\<close>

datatype py_exn =
  IndexError | ValueError | RuntimeError | NotImplementedError | FileNotFoundError | OSError
  | NotADirectoryError | IsADirectoryError | PermissionError

datatype error = Raised py_exn | GlobError py_exn | IgnoreFileError py_exn

section \<open>parse\_or: expansion of alternation groups\<close>

text \<open>
  The regular expression of \<open>parse_or\<close> is
  \<^verbatim>\<open>(?P<pre>.*)(?P<or>\((\w+\|)*\w+\))(?P<post>.*)\<close>.
  \<open>alts seen s\<close> matches \<^verbatim>\<open>(\w+\|)*\w+\)\<close> at the start of \<open>s\<close>, where \<open>seen\<close> says
  that the current alternative already has a word character; it returns the matched
  text and the remainder. Neither \<open>|\<close> nor \<open>)\<close> is a word character, so the match is
  unique when there is one.
\<close>

fun alts :: "bool \<Rightarrow> string \<Rightarrow> (string \<times> string) option" where
  "alts seen [] = None"
| "alts seen (c # cs) =
     (if word_char c then
        (case alts True cs of
           Some (m, rest) \<Rightarrow> Some (c # m, rest)
         | None \<Rightarrow> None)
      else if c = CHR ''|'' \<and> seen then
        (case alts False cs of
           Some (m, rest) \<Rightarrow> Some (c # m, rest)
         | None \<Rightarrow> None)
      else if c = CHR '')'' \<and> seen then Some ([c], cs)
      else None)"

fun or_at :: "string \<Rightarrow> (string \<times> string) option" where
  \<comment> \<open>the group \<open>or\<close> matched at the start of the string: its text and the remainder\<close>
  "or_at [] = None"
| "or_at (c # cs) =
     (if c = CHR ''('' then
        (case alts False cs of
           Some (m, rest) \<Rightarrow> Some (c # m, rest)
         | None \<Rightarrow> None)
      else None)"

text \<open>
  \<open>match_here s\<close> is the match of the whole expression that starts at the first
  character of \<open>s\<close>. The greedy \<open>.*\<close> of \<open>pre\<close> first takes one more character and
  gives it back only when the rest of the expression fails after it; \<open>post\<close> takes the
  remainder of the line. The result is \<open>(pre, or, post)\<close>.
\<close>

fun match_here :: "string \<Rightarrow> (string \<times> string \<times> string) option" where
  "match_here [] = None"
| "match_here (c # cs) =
     (case (if dot_char c then match_here cs else None) of
        Some (pre, g, post) \<Rightarrow> Some (c # pre, g, post)
      | None \<Rightarrow>
          (case or_at (c # cs) of
             Some (g, rest) \<Rightarrow> Some ([], g, takeWhile dot_char rest)
           | None \<Rightarrow> None))"

fun rgx_search :: "string \<Rightarrow> (string \<times> string \<times> string) option" where
  \<comment> \<open>\<open>rgx.search(rule)\<close>: the match at the leftmost start position that has one\<close>
  "rgx_search [] = match_here []"
| "rgx_search (c # cs) =
     (case match_here (c # cs) of
        Some m \<Rightarrow> Some m
      | None \<Rightarrow> rgx_search cs)"

fun parse_or_loop :: "string list \<Rightarrow> string list \<Rightarrow> bool \<Rightarrow> string list \<times> bool" where
  \<comment> \<open>the \<open>for\<close> loop of \<open>parse_or\<close>, on the state \<open>(new_rules, added_new_rule)\<close>\<close>
  "parse_or_loop [] new_rules added_new_rule = (new_rules, added_new_rule)"
| "parse_or_loop (rule # rest) new_rules added_new_rule =
     (case rgx_search rule of
        Some (pre, g, post) \<Rightarrow>
          parse_or_loop rest
            (new_rules @ map (\<lambda>elt. pre @ elt @ post) (split_on CHR ''|'' (butlast (tl g))))
            True
      | None \<Rightarrow> parse_or_loop rest (new_rules @ [rule]) added_new_rule)"

definition weight :: "string list \<Rightarrow> nat" where
  \<comment> \<open>the measure under which a pass that expands a group decreases\<close>
  "weight rules = sum_list (map (\<lambda>r. 2 ^ length r) rules)"

lemma alts_length: "alts seen s = Some (m, rest) \<Longrightarrow> length m + length rest = length s"
  by (induction s arbitrary: seen m rest) (auto split: if_splits option.splits)

lemma or_at_length: "or_at s = Some (g, rest) \<Longrightarrow> length g + length rest = length s \<and> g \<noteq> []"
  by (cases s) (auto split: if_splits option.splits dest: alts_length)

lemma match_here_length:
  "match_here s = Some (pre, g, post) \<Longrightarrow> length pre + length g + length post \<le> length s \<and> g \<noteq> []"
proof (induction s arbitrary: pre g post)
  case Nil
  then show ?case by simp
next
  case (Cons c cs)
  show ?case
  proof (cases "if dot_char c then match_here cs else None")
    case None
    with Cons.prems obtain rest where r: "or_at (c # cs) = Some (g, rest)"
      and p: "pre = []" "post = takeWhile dot_char rest"
      by (auto split: option.splits)
    have "length (takeWhile dot_char rest) \<le> length rest"
      by (rule length_takeWhile_le)
    with or_at_length [OF r] p show ?thesis by simp
  next
    case (Some t)
    obtain pre' g' post' where t: "t = (pre', g', post')" by (cases t)
    with Some have m: "match_here cs = Some (pre', g', post')"
      by (simp split: if_splits)
    from Some t Cons.prems have "pre = c # pre'" "g = g'" "post = post'"
      by (auto split: if_splits)
    with Cons.IH [OF m] show ?thesis by simp
  qed
qed

lemma rgx_search_length:
  "rgx_search s = Some (pre, g, post) \<Longrightarrow> length pre + length g + length post \<le> length s \<and> g \<noteq> []"
proof (induction s)
  case Nil
  then show ?case by simp
next
  case (Cons c cs)
  show ?case
  proof (cases "match_here (c # cs)")
    case None
    with Cons show ?thesis by simp
  next
    case (Some t)
    with Cons.prems have "match_here (c # cs) = Some (pre, g, post)" by simp
    then show ?thesis by (rule match_here_length)
  qed
qed

lemma split_on_not_Nil: "split_on sep s \<noteq> []"
  by (cases s) (auto split: list.splits)

lemma weight_wrap:
  "weight (map (\<lambda>elt. pre @ elt @ post) es)
     = 2 ^ (length pre + length post) * sum_list (map (\<lambda>e. 2 ^ length e) es)"
  by (induction es) (simp_all add: weight_def power_add algebra_simps)

lemma split_on_weight: "sum_list (map (\<lambda>e. 2 ^ length e) (split_on sep s)) < (2::nat) ^ (length s + 1)"
proof (induction s)
  case Nil
  then show ?case by simp
next
  case (Cons c cs)
  show ?case
  proof (cases "c = sep")
    case True
    have "(1::nat) \<le> 2 ^ (length cs + 1)" by simp
    with Cons True show ?thesis by simp
  next
    case False
    with Cons split_on_not_Nil [of sep cs] show ?thesis
      by (cases "split_on sep cs") auto
  qed
qed

lemma expand_weight:
  assumes "length pre + length g + length post \<le> length rule" and "g \<noteq> []"
  shows "weight (map (\<lambda>elt. pre @ elt @ post) (split_on sep (butlast (tl g)))) < 2 ^ length rule"
proof -
  let ?b = "butlast (tl g)"
  have "weight (map (\<lambda>elt. pre @ elt @ post) (split_on sep ?b))
      = 2 ^ (length pre + length post) * sum_list (map (\<lambda>e. 2 ^ length e) (split_on sep ?b))"
    by (rule weight_wrap)
  also have "\<dots> < 2 ^ (length pre + length post) * 2 ^ (length ?b + 1)"
    using split_on_weight [of sep ?b] by simp
  also have "\<dots> = 2 ^ (length pre + length post + length ?b + 1)"
    by (simp add: power_add)
  also have "\<dots> \<le> 2 ^ length rule"
  proof (rule power_increasing)
    from assms show "length pre + length post + length ?b + 1 \<le> length rule"
      by (cases g) auto
  qed simp
  finally show ?thesis .
qed

lemma parse_or_loop_weight:
  "parse_or_loop rules acc added = (new_rules, added') \<Longrightarrow>
     weight new_rules \<le> weight acc + weight rules \<and>
     (added' \<and> \<not> added \<longrightarrow> weight new_rules < weight acc + weight rules)"
proof (induction rules arbitrary: acc added)
  case Nil
  then show ?case by (auto simp: weight_def)
next
  case (Cons rule rest)
  show ?case
  proof (cases "rgx_search rule")
    case None
    with Cons.prems have "parse_or_loop rest (acc @ [rule]) added = (new_rules, added')"
      by simp
    from Cons.IH [OF this] show ?thesis by (auto simp: weight_def)
  next
    case (Some t)
    obtain pre g post where t: "t = (pre, g, post)" by (cases t)
    let ?new = "map (\<lambda>elt. pre @ elt @ post) (split_on CHR ''|'' (butlast (tl g)))"
    from Some t rgx_search_length have "length pre + length g + length post \<le> length rule" "g \<noteq> []"
      by blast+
    then have lt: "weight ?new < 2 ^ length rule" by (rule expand_weight)
    from Some t Cons.prems have "parse_or_loop rest (acc @ ?new) True = (new_rules, added')"
      by simp
    from Cons.IH [OF this] have "weight new_rules \<le> weight (acc @ ?new) + weight rest" by simp
    with lt show ?thesis by (simp add: weight_def)
  qed
qed

text \<open>
  \<open>parse_or\<close> calls itself once per pass. The interpreter's bound on the depth of
  recursion is not part of the model: the source raises \<open>RecursionError\<close> on a rule
  that needs about a thousand passes, where the model returns the expansion.
\<close>

function parse_or :: "string list \<Rightarrow> string list" where
  "parse_or rules_origin =
     (case parse_or_loop rules_origin [] False of
        (new_rules, added_new_rule) \<Rightarrow>
          if \<not> added_new_rule then new_rules else parse_or new_rules)"
  by pat_completeness auto
termination
proof (relation "measure weight")
  show "wf (measure weight)" by simp
next
  fix rules_origin new_rules added_new_rule
  assume "(new_rules, added_new_rule) = parse_or_loop rules_origin [] False"
    and "\<not> \<not> added_new_rule"
  then have "parse_or_loop rules_origin [] False = (new_rules, True)" by simp
  from parse_or_loop_weight [OF this] show "(new_rules, rules_origin) \<in> measure weight"
    by (simp add: weight_def)
qed

declare parse_or.simps [simp del]

section \<open>proc: normalisation of rules into globs\<close>

definition tail_rewrite :: "string \<Rightarrow> error + string" where
  \<comment> \<open>the first \<open>if\<close> chain of the loop body; \<open>rule[-1]\<close> raises on the empty string\<close>
  "tail_rewrite rule =
     (if rule = [] then Inl (Raised IndexError)
      else if last rule = CHR ''/'' then Inr (rule @ ''**/*'')
      else if last_n 3 rule = ''/**'' then Inr (rule @ ''/*'')
      else if last_n 4 rule = ''/**/'' then Inr (rule @ ''*'')
      else Inr rule)"

definition head_rewrite :: "string \<Rightarrow> string list \<Rightarrow> error + string list" where
  \<comment> \<open>the second \<open>if\<close> and the final append; \<open>rule[0]\<close> raises on the empty string\<close>
  "head_rewrite rule rules =
     (case rule of
        [] \<Rightarrow> Inl (Raised IndexError)
      | c # cs \<Rightarrow>
          if c = CHR ''/'' then
            (if cs \<noteq> [] then Inr (rules @ [cs]) else Inr rules)
          else
            (let rule' = ''**/'' @ rule;
                 rules' = rules @ [rule' @ ''/**/*'']
             in if rule' \<noteq> [] then Inr (rules' @ [rule']) else Inr rules'))"

definition proc_rule :: "string \<Rightarrow> string list \<Rightarrow> error + string list" where
  \<comment> \<open>one iteration of the loop of \<open>proc\<close>, on the list \<open>rules\<close> built so far\<close>
  "proc_rule rule_origin rules =
     (case tail_rewrite rule_origin of
        Inl e \<Rightarrow> Inl e
      | Inr rule \<Rightarrow> head_rewrite rule rules)"

fun proc_loop :: "string list \<Rightarrow> string list \<Rightarrow> error + string list" where
  "proc_loop [] rules = Inr rules"
| "proc_loop (rule_origin # rest) rules =
     (case proc_rule rule_origin rules of
        Inl e \<Rightarrow> Inl e
      | Inr rules' \<Rightarrow> proc_loop rest rules')"

definition proc :: "string list \<Rightarrow> error + string list" where
  "proc rules_origin = proc_loop (parse_or rules_origin) []"

section \<open>exception\_ignore: the sign split of the ignore rules\<close>

fun exception_ignore_loop ::
  "string list \<Rightarrow> string list \<Rightarrow> string list \<Rightarrow> error + (string list \<times> string list)" where
  "exception_ignore_loop [] ignore_rules exception_ignore_rules =
     Inr (ignore_rules, exception_ignore_rules)"
| "exception_ignore_loop (rule # rest) ignore_rules exception_ignore_rules =
     (case rule of
        [] \<Rightarrow> Inl (Raised IndexError)
      | c # cs \<Rightarrow>
          if c = CHR ''!'' then
            exception_ignore_loop rest ignore_rules (exception_ignore_rules @ [cs])
          else exception_ignore_loop rest (ignore_rules @ [rule]) exception_ignore_rules)"

definition exception_ignore :: "string list \<Rightarrow> error + (string list \<times> string list)" where
  "exception_ignore ignore_rules_origin = exception_ignore_loop ignore_rules_origin [] []"

section \<open>Paths\<close>

text \<open>
  A \<open>pathlib\<close> path on a POSIX system is its root (empty, one slash or two slashes)
  and the list of its components. Two paths are equal when both agree.
\<close>

datatype path = Path (anchor: string) (parts: "string list")

fun join_with :: "char \<Rightarrow> string list \<Rightarrow> string" where
  \<comment> \<open>\<open>sep.join(xs)\<close>\<close>
  "join_with sep [] = []"
| "join_with sep [x] = x"
| "join_with sep (x # y # ys) = x @ sep # join_with sep (y # ys)"

definition path_root :: "string \<Rightarrow> string" where
  \<comment> \<open>exactly two leading slashes are kept, any other number is one\<close>
  "path_root s =
     (if take 1 s \<noteq> ''/'' then []
      else if take 2 s = ''//'' \<and> take 3 s \<noteq> ''///'' then ''//''
      else ''/'')"

definition parse_path :: "string \<Rightarrow> path" where
  \<comment> \<open>\<open>pathlib.Path(s)\<close>: empty components and \<open>.\<close> are dropped\<close>
  "parse_path s =
     Path (path_root s) (filter (\<lambda>x. x \<noteq> [] \<and> x \<noteq> ''.'') (split_on CHR ''/'' s))"

definition str_path :: "path \<Rightarrow> string" where
  \<comment> \<open>\<open>str(p)\<close>\<close>
  "str_path p =
     (if anchor p = [] \<and> parts p = [] then ''.''
      else anchor p @ join_with CHR ''/'' (parts p))"

definition relative_to :: "path \<Rightarrow> string \<Rightarrow> py_exn + path" where
  \<comment> \<open>\<open>f.relative_to(other)\<close> for a string \<open>other\<close>\<close>
  "relative_to f other =
     (let to = parse_path other
      in if anchor f = anchor to \<and> prefix (parts to) (parts f)
         then Inr (Path [] (drop (length (parts to)) (parts f)))
         else Inl ValueError)"

section \<open>The filesystem\<close>

text \<open>
  What the module asks of the operating system is a parameter of the model:
  \<open>os_expanduser\<close> is \<open>os.path.expanduser\<close>; \<open>fs_glob root pattern\<close> is the exception
  that \<open>root.glob(pattern)\<close> raises or the paths it yields, each given as the string
  of which the yielded \<open>Path\<close> is the parse; \<open>fs_is_file\<close> is \<open>Path.is_file\<close>;
  \<open>fs_node p\<close> is what the path \<open>p\<close> names: nothing, a directory, or a regular file
  with its lines, which the process may read or not.
\<close>

datatype node = Directory | Regular bool "string list"

record fs =
  os_expanduser :: "string \<Rightarrow> string"
  fs_glob :: "path \<Rightarrow> string \<Rightarrow> py_exn + string list"
  fs_is_file :: "path \<Rightarrow> bool"
  fs_node :: "path \<Rightarrow> node option"

text \<open>
  Opening a file resolves its name one component at a time, as the system call does:
  the root or working directory and every component before the last must name a
  directory. A name that is missing gives \<open>FileNotFoundError\<close>, a regular file where a
  directory is needed gives \<open>NotADirectoryError\<close>. Every directory can be searched.
\<close>

fun walk ::
  "(path \<Rightarrow> node option) \<Rightarrow> string \<Rightarrow> string list \<Rightarrow> string list \<Rightarrow> py_exn + node" where
  \<comment> \<open>\<open>seen\<close> are the components resolved so far, the last argument those to come\<close>
  "walk nd a seen [] =
     (case nd (Path a seen) of
        None \<Rightarrow> Inl FileNotFoundError
      | Some n \<Rightarrow> Inr n)"
| "walk nd a seen (c # cs) =
     (case nd (Path a seen) of
        None \<Rightarrow> Inl FileNotFoundError
      | Some Directory \<Rightarrow> walk nd a (seen @ [c]) cs
      | Some (Regular r ls) \<Rightarrow> Inl NotADirectoryError)"

definition os_stat :: "fs \<Rightarrow> string \<Rightarrow> py_exn + node" where
  \<comment> \<open>what a name resolves to; the empty name resolves to nothing, and a name with a
      trailing slash must be a directory\<close>
  "os_stat env name =
     (if name = [] then Inl FileNotFoundError
      else
        (case walk (fs_node env) (anchor (parse_path name)) [] (parts (parse_path name)) of
           Inl e \<Rightarrow> Inl e
         | Inr Directory \<Rightarrow> Inr Directory
         | Inr (Regular r ls) \<Rightarrow>
             if last name = CHR ''/'' then Inl NotADirectoryError else Inr (Regular r ls)))"

definition path_exists :: "fs \<Rightarrow> string \<Rightarrow> bool" where
  \<comment> \<open>\<open>os.path.exists(name)\<close>\<close>
  "path_exists env name = (case os_stat env name of Inl e \<Rightarrow> False | Inr n \<Rightarrow> True)"

definition os_open :: "fs \<Rightarrow> string \<Rightarrow> py_exn + string list" where
  \<comment> \<open>\<open>open(name, 'r')\<close> and the iteration over the lines of the file\<close>
  "os_open env name =
     (case os_stat env name of
        Inl e \<Rightarrow> Inl e
      | Inr Directory \<Rightarrow> Inl IsADirectoryError
      | Inr (Regular r ls) \<Rightarrow> if r then Inr ls else Inl PermissionError)"

definition path_expanduser :: "fs \<Rightarrow> path \<Rightarrow> py_exn + path" where
  \<comment> \<open>\<open>p.expanduser()\<close>\<close>
  "path_expanduser env p =
     (case parts p of
        [] \<Rightarrow> Inr p
      | t # ts \<Rightarrow>
          if anchor p = [] \<and> take 1 t = ''~'' then
            (let homedir = os_expanduser env t
             in if take 1 homedir = ''~'' then Inl RuntimeError
                else Inr (Path (anchor (parse_path homedir)) (parts (parse_path homedir) @ ts)))
          else Inr p)"

section \<open>glob\_rules\<close>

fun glob_all :: "fs \<Rightarrow> path \<Rightarrow> string list \<Rightarrow> py_exn + path list" where
  \<comment> \<open>the comprehension \<open>f for rule in rules for f in root.glob(rule) if is_file(f)\<close>\<close>
  "glob_all env root [] = Inr []"
| "glob_all env root (rule # rules) =
     (case fs_glob env root rule of
        Inl e \<Rightarrow> Inl e
      | Inr found \<Rightarrow>
          (case glob_all env root rules of
             Inl e \<Rightarrow> Inl e
           | Inr others \<Rightarrow> Inr (filter (fs_is_file env) (map parse_path found) @ others)))"

definition glob_rules :: "fs \<Rightarrow> string \<Rightarrow> string list \<Rightarrow> error + path list" where
  \<comment> \<open>the resulting set is a list without duplicates; its order stands for the
      unspecified iteration order of the set\<close>
  "glob_rules env root rules =
     (case path_expanduser env (parse_path root) of
        Inl e \<Rightarrow> Inl (Raised e)
      | Inr root' \<Rightarrow>
          (case glob_all env root' rules of
             Inl e \<Rightarrow> if e = ValueError then Inl (GlobError e) else Inl (Raised e)
           | Inr files \<Rightarrow> Inr (remdups files)))"

section \<open>load\_ignore\_rules\<close>

definition strip :: "string \<Rightarrow> string" where
  \<comment> \<open>\<open>line.strip()\<close>\<close>
  "strip s = rev (dropWhile space_char (rev (dropWhile space_char s)))"

definition hash_comment :: "string \<Rightarrow> bool" where
  \<comment> \<open>\<open>re.search(r'^\s*#', line)\<close>\<close>
  "hash_comment line =
     (case dropWhile space_char line of [] \<Rightarrow> False | c # cs \<Rightarrow> c = CHR ''#'')"

fun load_loop :: "string list \<Rightarrow> string list \<Rightarrow> string list" where
  "load_loop [] ignore_rules = ignore_rules"
| "load_loop (l # ls) ignore_rules =
     (let line = strip l
      in if length line \<ge> 2 \<and> take 2 line = ''//'' then load_loop ls ignore_rules
         else if line = [] \<or> hash_comment line then load_loop ls ignore_rules
         else load_loop ls (ignore_rules @ [line]))"

definition load_ignore_rules :: "fs \<Rightarrow> string \<Rightarrow> error + string list" where
  "load_ignore_rules env file_path =
     (case os_open env (os_expanduser env file_path) of
        Inl e \<Rightarrow> if e = FileNotFoundError then Inl (IgnoreFileError e) else Inl (Raised e)
      | Inr lines \<Rightarrow> Inr (load_loop lines []))"

section \<open>far\_glob\<close>

definition rel_str :: "string \<Rightarrow> path \<Rightarrow> py_exn + string" where
  \<comment> \<open>\<open>str(f.relative_to(root))\<close>\<close>
  "rel_str root f =
     (case relative_to f root of Inl e \<Rightarrow> Inl e | Inr r \<Rightarrow> Inr (str_path r))"

fun rel_strs :: "string \<Rightarrow> path list \<Rightarrow> py_exn + string list" where
  "rel_strs root [] = Inr []"
| "rel_strs root (f # files) =
     (case rel_str root f of
        Inl e \<Rightarrow> Inl e
      | Inr s \<Rightarrow>
          (case rel_strs root files of
             Inl e \<Rightarrow> Inl e
           | Inr ss \<Rightarrow> Inr (s # ss)))"

definition kept :: "path list \<Rightarrow> path list \<Rightarrow> path \<Rightarrow> bool" where
  \<comment> \<open>the condition of the final comprehension\<close>
  "kept ignore_files exception_ignore_files f =
     (\<not> (f \<in> set ignore_files \<and> f \<notin> set exception_ignore_files))"

definition far_glob :: "fs \<Rightarrow> string \<Rightarrow> string list \<Rightarrow> string list \<Rightarrow> error + string list" where
  "far_glob env root rules ignore_rules =
     (case exception_ignore ignore_rules of
        Inl e \<Rightarrow> Inl e
      | Inr (ignore_rules1, exception_ignore_rules1) \<Rightarrow>
     (case proc rules of
        Inl e \<Rightarrow> Inl e
      | Inr rules2 \<Rightarrow>
     (case proc ignore_rules1 of
        Inl e \<Rightarrow> Inl e
      | Inr ignore_rules2 \<Rightarrow>
     (case proc exception_ignore_rules1 of
        Inl e \<Rightarrow> Inl e
      | Inr exception_ignore_rules2 \<Rightarrow>
     (case glob_rules env root rules2 of
        Inl e \<Rightarrow> Inl e
      | Inr files \<Rightarrow>
     (case glob_rules env root ignore_rules2 of
        Inl e \<Rightarrow> Inl e
      | Inr ignore_files \<Rightarrow>
     (case glob_rules env root exception_ignore_rules2 of
        Inl e \<Rightarrow> Inl e
      | Inr exception_ignore_files \<Rightarrow>
     (case rel_strs root (filter (kept ignore_files exception_ignore_files) files) of
        Inl e \<Rightarrow> Inl (Raised e)
      | Inr strs \<Rightarrow> Inr (sort strs)))))))))"

section \<open>Notions used to state the properties\<close>

definition word :: "string \<Rightarrow> bool" where
  \<comment> \<open>an alternative: one or more word characters\<close>
  "word e = (e \<noteq> [] \<and> list_all word_char e)"

definition group_text :: "string list \<Rightarrow> string" where
  \<comment> \<open>the text of the alternation group with the alternatives \<open>es\<close>\<close>
  "group_text es = ''('' @ join_with CHR ''|'' es @ '')''"

fun groups_nonword :: "string \<Rightarrow> bool" where
  \<comment> \<open>every parenthesised group of the rule, from an opening parenthesis to the next
      closing one, has an alternative with a character that is not a word character\<close>
  "groups_nonword [] = True"
| "groups_nonword (c # cs) =
     ((if c = CHR ''('' \<and> CHR '')'' \<in> set cs
       then list_ex (list_ex (\<lambda>x. \<not> word_char x))
              (split_on CHR ''|'' (takeWhile (\<lambda>x. x \<noteq> CHR '')'') cs))
       else True)
      \<and> groups_nonword cs)"

definition plain_anywhere :: "string \<Rightarrow> bool" where
  \<comment> \<open>a non-empty rule without alternation group, leading slash or directory tail\<close>
  "plain_anywhere r =
     (r \<noteq> [] \<and> rgx_search r = None \<and> \<not> prefix ''/'' r
      \<and> \<not> suffix ''/'' r \<and> \<not> suffix ''/**'' r \<and> \<not> suffix ''/**/'' r)"

definition anywhere_globs :: "string \<Rightarrow> string list" where
  \<comment> \<open>the directory-expansion glob, then the prefixed glob\<close>
  "anywhere_globs r = [''**/'' @ r @ ''/**/*'', ''**/'' @ r]"

definition match_set :: "fs \<Rightarrow> string \<Rightarrow> string list \<Rightarrow> error + path list" where
  \<comment> \<open>the set of files that a list of rules matches: \<open>glob_rules(root, proc(rules))\<close>\<close>
  "match_set env root rules =
     (case proc rules of Inl e \<Rightarrow> Inl e | Inr globs \<Rightarrow> glob_rules env root globs)"

definition wf_parts :: "string list \<Rightarrow> bool" where
  \<comment> \<open>components as a parse produces them: not empty, not \<open>.\<close>, without a slash\<close>
  "wf_parts ps = list_all (\<lambda>x. x \<noteq> [] \<and> x \<noteq> ''.'' \<and> CHR ''/'' \<notin> set x) ps"

definition skipped :: "string \<Rightarrow> bool" where
  \<comment> \<open>a stripped line that is left out: empty, starting with \<open>//\<close>, or a \<open>#\<close> comment\<close>
  "skipped line = (line = [] \<or> prefix ''//'' line \<or> prefix ''#'' (dropWhile space_char line))"

definition project_fs :: fs where
  \<comment> \<open>an example: the home directory \<open>/home/u\<close> holds the directory \<open>proj\<close> with the
      files \<open>a.txt\<close>, \<open>sub/b.txt\<close> and \<open>sub/c.log\<close>, and the ignore file \<open>.farignore\<close>\<close>
  "project_fs =
     \<lparr> os_expanduser = (\<lambda>s. if s = ''~'' \<or> prefix ''~/'' s then ''/home/u'' @ drop 1 s else s),
       fs_glob = (\<lambda>root pattern.
         if root \<noteq> Path ''/'' [''home'', ''u'', ''proj''] then Inr []
         else if pattern = ''**/*'' then
           Inr [''/home/u/proj/a.txt'', ''/home/u/proj/sub'', ''/home/u/proj/sub/b.txt'',
                ''/home/u/proj/sub/c.log'']
         else if pattern = ''**/*/**/*'' \<or> pattern = ''**/sub/**/*'' then
           Inr [''/home/u/proj/sub/b.txt'', ''/home/u/proj/sub/c.log'']
         else if pattern = ''**/sub/b.txt'' then Inr [''/home/u/proj/sub/b.txt'']
         else if pattern = ''a**'' then Inl ValueError
         else Inr []),
       fs_is_file = (\<lambda>p. p \<noteq> Path ''/'' [''home'', ''u'', ''proj'', ''sub'']),
       fs_node = (\<lambda>p.
         if anchor p \<noteq> ''/'' then None
         else if prefix (parts p) [''home'', ''u'', ''proj'', ''sub''] then Some Directory
         else if parts p = [''home'', ''u'', ''.farignore''] then
           Some (Regular True
             [''  # comment'' @ [CHR 0x0A], [CHR 0x0A], ''//old-rule'' @ [CHR 0x0A],
              ''valid.txt'' @ [CHR 0x0A]])
         else if parts p = [''home'', ''u'', ''.secret''] then Some (Regular False [])
         else if parts p \<in> set [[''home'', ''u'', ''proj'', ''a.txt''],
                                 [''home'', ''u'', ''proj'', ''sub'', ''b.txt''],
                                 [''home'', ''u'', ''proj'', ''sub'', ''c.log'']]
         then Some (Regular True [])
         else None) \<rparr>"

definition missing_component :: "fs \<Rightarrow> string \<Rightarrow> bool" where
  \<comment> \<open>the name is empty, or some leading part of it names nothing while every shorter
      leading part, the root or working directory included, names a directory\<close>
  "missing_component env name =
     (name = [] \<or>
      list_ex
        (\<lambda>q. fs_node env (Path (anchor (parse_path name)) q) = None \<and>
             list_all
               (\<lambda>r. r = q \<or> fs_node env (Path (anchor (parse_path name)) r) = Some Directory)
               (prefixes q))
        (prefixes (parts (parse_path name))))"

section \<open>Properties of parse\_or\<close>

lemma parse_or_loop_unmatched:
  "list_all (\<lambda>r. rgx_search r = None) rules \<Longrightarrow> parse_or_loop rules acc added = (acc @ rules, added)"
  by (induction rules arbitrary: acc) simp_all

lemma parse_or_unmatched:
  "list_all (\<lambda>r. rgx_search r = None) rules \<Longrightarrow> parse_or rules = rules"
  by (simp add: parse_or.simps parse_or_loop_unmatched)

lemma not_word_char [simp]:
  "\<not> word_char CHR ''(''" "\<not> word_char CHR '')''" "\<not> word_char CHR ''|''" "\<not> word_char CHR 0x0A"
  by (simp_all add: word_char_def)

lemma word_char_plain: "word_char x \<Longrightarrow> x \<noteq> CHR ''|'' \<and> x \<noteq> CHR ''('' \<and> x \<noteq> CHR '')''"
  by (auto simp: word_char_def)

lemma join_with_set: "c \<in> set (join_with sep es) \<Longrightarrow> c = sep \<or> (\<exists>e\<in>set es. c \<in> set e)"
  by (induction sep es rule: join_with.induct) auto

lemma alts_word_run:
  "list_all word_char e \<Longrightarrow>
     alts seen (e @ s) =
       (if e = [] then alts seen s
        else (case alts True s of Some (m, r) \<Rightarrow> Some (e @ m, r) | None \<Rightarrow> None))"
  by (induction e arbitrary: seen) (auto split: option.splits)

lemma alts_join:
  "es \<noteq> [] \<Longrightarrow> list_all word es \<Longrightarrow>
     alts False (join_with CHR ''|'' es @ CHR '')'' # post) = Some (join_with CHR ''|'' es @ '')'', post)"
proof (induction es)
  case Nil
  then show ?case by simp
next
  case (Cons x xs)
  show ?case
  proof (cases xs)
    case Nil
    with Cons.prems show ?thesis by (simp add: alts_word_run word_def)
  next
    case (Cons y ys)
    with Cons.prems Cons.IH show ?thesis by (simp add: alts_word_run word_def)
  qed
qed

lemma or_at_group:
  "es \<noteq> [] \<Longrightarrow> list_all word es \<Longrightarrow> or_at (group_text es @ post) = Some (group_text es, post)"
  by (simp add: group_text_def alts_join)

lemma split_on_append_sep:
  "sep \<notin> set x \<Longrightarrow> split_on sep (x @ sep # s) = x # split_on sep s"
  by (induction x) (auto split: list.splits)

lemma split_on_no_sep: "sep \<notin> set x \<Longrightarrow> split_on sep x = [x]"
  by (induction x) (auto split: list.splits)

lemma split_on_join:
  "es \<noteq> [] \<Longrightarrow> list_all (\<lambda>e. sep \<notin> set e) es \<Longrightarrow> split_on sep (join_with sep es) = es"
proof (induction es)
  case Nil
  then show ?case by simp
next
  case (Cons x xs)
  then show ?case by (cases xs) (simp_all add: split_on_no_sep split_on_append_sep)
qed

lemma match_here_skip:
  "CHR ''('' \<notin> set u \<Longrightarrow> match_here s = None \<Longrightarrow> match_here (u @ s) = None"
  by (induction u) auto

lemma match_here_prepend:
  "list_all dot_char pre \<Longrightarrow> match_here s = Some (p, g, post) \<Longrightarrow>
     match_here (pre @ s) = Some (pre @ p, g, post)"
  by (induction pre) auto

lemma rgx_search_Some: "match_here s = Some m \<Longrightarrow> rgx_search s = Some m"
  by (cases s) auto

lemma rgx_search_None: "rgx_search s = None \<Longrightarrow> match_here s = None"
  by (cases s) (auto split: option.splits)


lemma alts_all_word:
  "alts seen s = Some (m, rest) \<Longrightarrow>
     CHR '')'' \<in> set s \<and>
     list_all (list_all word_char) (split_on CHR ''|'' (takeWhile (\<lambda>x. x \<noteq> CHR '')'') s))"
proof (induction s arbitrary: seen m rest)
  case Nil
  then show ?case by simp
next
  case (Cons c cs)
  show ?case
  proof (cases "c = CHR '')''")
    case True
    then show ?thesis by simp
  next
    case False
    with Cons.prems obtain seen' m' where "alts seen' cs = Some (m', rest)"
      and c: "word_char c \<or> c = CHR ''|''"
      by (auto split: if_splits option.splits)
    from Cons.IH [OF this(1)] False c show ?thesis
      by (cases "split_on CHR ''|'' (takeWhile (\<lambda>x. x \<noteq> CHR '')'') cs)") auto
  qed
qed

lemma groups_nonword_or_at: "groups_nonword (c # cs) \<Longrightarrow> or_at (c # cs) = None"
proof (rule ccontr)
  assume g: "groups_nonword (c # cs)" and "or_at (c # cs) \<noteq> None"
  then obtain m rest where c: "c = CHR ''(''" and a: "alts False cs = Some (m, rest)"
    by (auto split: if_splits option.splits)
  from alts_all_word [OF a] g c show False
    by (auto simp: list_all_iff list_ex_iff)
qed

lemma groups_nonword_match_here: "groups_nonword s \<Longrightarrow> match_here s = None"
proof (induction s)
  case Nil
  then show ?case by simp
next
  case (Cons c cs)
  from Cons.prems have "groups_nonword cs" by simp
  with Cons.IH have "match_here cs = None" by simp
  with groups_nonword_or_at [OF Cons.prems] show ?case by simp
qed

lemma groups_nonword_search: "groups_nonword s \<Longrightarrow> rgx_search s = None"
proof (induction s)
  case Nil
  then show ?case by simp
next
  case (Cons c cs)
  from Cons.prems have "groups_nonword cs" by simp
  with Cons.IH groups_nonword_match_here [OF Cons.prems] show ?case by simp
qed

text \<open>
  C10. A rule in which every parenthesised group has an alternative with a character
  that is not a word character has no match of the expression, and \<open>parse_or\<close>
  returns a list of such rules unchanged, parentheses included.
\<close>

theorem parse_or_keeps_nonword_groups:
  assumes "list_all groups_nonword rules"
  shows "parse_or rules = rules"
proof (rule parse_or_unmatched)
  from assms show "list_all (\<lambda>r. rgx_search r = None) rules"
    by (simp add: list_all_iff groups_nonword_search)
qed

theorem parse_or_keeps_nonword_groups_witness:
  "list_all groups_nonword [''(*.c|*.h)'', ''(a.b|c)''] \<and>
   parse_or [''(*.c|*.h)'', ''(a.b|c)''] = [''(*.c|*.h)'', ''(a.b|c)'']"
proof -
  have h: "list_all groups_nonword [''(*.c|*.h)'', ''(a.b|c)'']"
    by (simp add: word_char_def)
  from h parse_or_keeps_nonword_groups [OF h] show ?thesis by simp
qed

text \<open>
  C5. The worked example: two groups of two alternatives give four rules, the
  alternatives of the first group varying fastest.
\<close>

theorem parse_or_example:
  "parse_or [''.*(cpp|hpp).(c|h)''] = [''.*cpp.c'', ''.*hpp.c'', ''.*cpp.h'', ''.*hpp.h'']"
  by (simp add: parse_or.simps word_char_def dot_char_def)

lemma match_here_group:
  assumes es: "es \<noteq> []" "list_all word es"
    and post: "list_all dot_char post" "rgx_search post = None"
  shows "match_here (group_text es @ post) = Some ([], group_text es, post)"
proof -
  have "CHR ''('' \<notin> set (join_with CHR ''|'' es)"
    using es(2) by (auto simp: list_all_iff word_def dest!: join_with_set word_char_plain)
  then have "CHR ''('' \<notin> set (join_with CHR ''|'' es @ '')'')" by simp
  moreover from post(2) have "match_here post = None" by (rule rgx_search_None)
  ultimately have "match_here ((join_with CHR ''|'' es @ '')'') @ post) = None"
    by (rule match_here_skip)
  moreover have "takeWhile dot_char post = post"
    using post(1) by (simp add: list_all_iff)
  ultimately show ?thesis
    using or_at_group [OF es, of post] by (simp add: group_text_def dot_char_def)
qed

text \<open>
  C4, as the code has it. In a rule of one line, one pass of the loop replaces the last
  group, the one with no group after it, by each of its alternatives in turn; the text
  before it, earlier groups included, and the text after it are kept as they are.
  Groups are therefore resolved from right to left over successive passes.
\<close>

theorem parse_or_pass_last_group:
  assumes "es \<noteq> []" and "list_all word es"
    and "list_all dot_char pre" and "list_all dot_char post"
    and "rgx_search post = None"
  shows "parse_or_loop [pre @ group_text es @ post] [] False
           = (map (\<lambda>e. pre @ e @ post) es, True)"
proof -
  have "match_here (group_text es @ post) = Some ([], group_text es, post)"
    using assms(1,2,4,5) by (rule match_here_group)
  with assms(3)
  have "match_here (pre @ group_text es @ post) = Some (pre @ [], group_text es, post)"
    by (rule match_here_prepend)
  then have "rgx_search (pre @ group_text es @ post) = Some (pre, group_text es, post)"
    by (simp add: rgx_search_Some)
  moreover have "list_all (\<lambda>e. CHR ''|'' \<notin> set e) es"
    using assms(2) by (auto simp: list_all_iff word_def dest: word_char_plain)
  then have "split_on CHR ''|'' (butlast (tl (group_text es))) = es"
    using assms(1) by (simp add: group_text_def butlast_append split_on_join)
  ultimately show ?thesis by simp
qed

theorem parse_or_pass_last_group_witness:
  "list_all word [''c'', ''d''] \<and> list_all dot_char ''x(a|b)y'' \<and> list_all dot_char ''z'' \<and>
   rgx_search ''z'' = None \<and>
   parse_or_loop [''x(a|b)y(c|d)z''] [] False = ([''x(a|b)ycz'', ''x(a|b)ydz''], True)"
  using parse_or_pass_last_group [of "[''c'', ''d'']" "''x(a|b)y''" "''z''"]
  by (simp add: word_def word_char_def dot_char_def group_text_def)

text \<open>
  The pass does not replace the first group: of the two groups of \<open>(a|b)(c|d)\<close> it
  is the second that one pass expands.
\<close>

theorem parse_or_pass_first_group_counterexample:
  "fst (parse_or_loop [''(a|b)(c|d)''] [] False) = [''(a|b)c'', ''(a|b)d''] \<and>
   fst (parse_or_loop [''(a|b)(c|d)''] [] False) \<noteq> [''a(c|d)'', ''b(c|d)'']"
  by (simp add: word_char_def dot_char_def)

section \<open>Properties of proc and exception\_ignore\<close>

subsection \<open>proc on rules that match anywhere\<close>

lemma tail_rewrite_plain: "plain_anywhere r \<Longrightarrow> tail_rewrite r = Inr r"
proof -
  assume p: "plain_anywhere r"
  then have ne: "r \<noteq> []" by (simp add: plain_anywhere_def)
  have "last r \<noteq> CHR ''/''"
  proof
    assume "last r = CHR ''/''"
    with ne have "r = butlast r @ ''/''" by (metis append_butlast_last_id)
    then have "suffix ''/'' r" by (metis suffixI)
    with p show False by (simp add: plain_anywhere_def)
  qed
  moreover have "last_n 3 r \<noteq> ''/**''"
  proof
    assume "last_n 3 r = ''/**''"
    then have "suffix ''/**'' r" unfolding last_n_def by (metis suffix_drop)
    with p show False by (simp add: plain_anywhere_def)
  qed
  moreover have "last_n 4 r \<noteq> ''/**/''"
  proof
    assume "last_n 4 r = ''/**/''"
    then have "suffix ''/**/'' r" unfolding last_n_def by (metis suffix_drop)
    with p show False by (simp add: plain_anywhere_def)
  qed
  ultimately show ?thesis using ne by (simp add: tail_rewrite_def)
qed

lemma head_rewrite_plain:
  "plain_anywhere r \<Longrightarrow> head_rewrite r acc = Inr (acc @ anywhere_globs r)"
  by (cases r) (auto simp: plain_anywhere_def head_rewrite_def anywhere_globs_def)

lemma proc_loop_plain:
  "list_all plain_anywhere rules \<Longrightarrow>
     proc_loop rules acc = Inr (acc @ concat (map anywhere_globs rules))"
  by (induction rules arbitrary: acc)
     (simp_all add: proc_rule_def tail_rewrite_plain head_rewrite_plain)

text \<open>
  C7. Every non-empty rule without alternation group, without a leading slash and
  without a directory tail contributes exactly two globs to the result of \<open>proc\<close>:
  first the rule between \<open>**/\<close> and \<open>/**/*\<close>, then the rule after \<open>**/\<close>.
\<close>

theorem proc_anywhere_rule:
  assumes "list_all plain_anywhere rules"
  shows "proc rules = Inr (concat (map anywhere_globs rules))"
proof -
  from assms have "list_all (\<lambda>r. rgx_search r = None) rules"
    by (simp add: list_all_iff plain_anywhere_def)
  then have "parse_or rules = rules" by (rule parse_or_unmatched)
  with proc_loop_plain [OF assms, of "[]"] show ?thesis by (simp add: proc_def)
qed

theorem proc_anywhere_rule_witness:
  "list_all plain_anywhere [''*.txt'', ''xx''] \<and>
   proc [''*.txt'', ''xx''] = Inr [''**/*.txt/**/*'', ''**/*.txt'', ''**/xx/**/*'', ''**/xx'']"
proof -
  have h: "list_all plain_anywhere [''*.txt'', ''xx'']"
    by (simp add: plain_anywhere_def suffix_def)
  from h proc_anywhere_rule [OF h] show ?thesis by (simp add: anywhere_globs_def)
qed

subsection \<open>proc on directory tails and on the empty rule\<close>

text \<open>
  C6. A rule that ends with \<open>/**/\<close> also ends with \<open>/\<close>, so the first branch of the
  tail rewriting takes it and appends \<open>**/*\<close>; the branch for \<open>/**/\<close> is never reached.
\<close>

theorem proc_double_star_slash:
  "proc [''/xx/**/''] = Inr [''xx/**/**/*'']"
  by (simp add: proc_def parse_or.simps proc_rule_def tail_rewrite_def head_rewrite_def)

lemma tail_rewrite_double_star_slash:
  "tail_rewrite (r @ ''/**/'') = Inr (r @ ''/**/**/*'')"
  by (simp add: tail_rewrite_def)

text \<open>
  C3. Both functions index the rule before any test for emptiness, so the empty rule
  raises \<open>IndexError\<close>; the exception rule \<open>!\<close> of an ignore file reaches \<open>proc\<close>
  as the empty rule.
\<close>

theorem proc_empty_rule_raises:
  "proc [''''] = Inl (Raised IndexError) \<and>
   exception_ignore [''''] = Inl (Raised IndexError) \<and>
   exception_ignore [''!''] = Inr ([], ['''']) \<and>
   far_glob project_fs ''/home/u/proj'' [''*''] [''!''] = Inl (Raised IndexError)"
  by code_simp

subsection \<open>Rules that are not empty\<close>

text \<open>
  The indexing raises on the empty rule only: an expansion never produces an empty
  rule from non-empty ones, and on a list of non-empty rules both \<open>proc\<close> and
  \<open>exception_ignore\<close> return in the model. For \<open>proc\<close> this leaves aside the bound
  on the depth of recursion of \<open>parse_or\<close>, which the model does not have.
\<close>

lemma alts_pieces:
  "alts seen s = Some (m, rest) \<Longrightarrow>
     m \<noteq> [] \<and>
     (case split_on CHR ''|'' (butlast m) of
        [] \<Rightarrow> False
      | x # xs \<Rightarrow> (seen \<or> x \<noteq> []) \<and> list_all (\<lambda>e. e \<noteq> []) xs)"
proof (induction s arbitrary: seen m rest)
  case Nil
  then show ?case by simp
next
  case (Cons c cs)
  consider (w) "word_char c" | (bar) "\<not> word_char c" "c = CHR ''|''" "seen"
    | (close) "\<not> word_char c" "c = CHR '')''" "seen"
    using Cons.prems by (auto split: if_splits)
  then show ?case
  proof cases
    case w
    with Cons.prems obtain m' where a: "alts True cs = Some (m', rest)" and m: "m = c # m'"
      by (auto split: option.splits)
    from w have "c \<noteq> CHR ''|''" by (auto dest: word_char_plain)
    with Cons.IH [OF a] m show ?thesis by (auto split: list.splits)
  next
    case bar
    with Cons.prems obtain m' where a: "alts False cs = Some (m', rest)" and m: "m = c # m'"
      by (auto split: option.splits)
    with Cons.IH [OF a] bar show ?thesis by (auto split: list.splits)
  next
    case close
    with Cons.prems show ?thesis by auto
  qed
qed

lemma or_at_pieces:
  "or_at s = Some (g, rest) \<Longrightarrow> list_all (\<lambda>e. e \<noteq> []) (split_on CHR ''|'' (butlast (tl g)))"
  by (cases s) (auto split: if_splits option.splits list.splits dest!: alts_pieces)

lemma match_here_pieces:
  "match_here s = Some (pre, g, post) \<Longrightarrow>
     list_all (\<lambda>e. e \<noteq> []) (split_on CHR ''|'' (butlast (tl g)))"
proof (induction s arbitrary: pre)
  case Nil
  then show ?case by simp
next
  case (Cons c cs)
  show ?case
  proof (cases "if dot_char c then match_here cs else None")
    case None
    with Cons.prems obtain rest where "or_at (c # cs) = Some (g, rest)"
      by (auto split: option.splits)
    then show ?thesis by (rule or_at_pieces)
  next
    case (Some t)
    with Cons.prems obtain pre' where "match_here cs = Some (pre', g, post)"
      by (cases t) (auto split: if_splits)
    then show ?thesis by (rule Cons.IH)
  qed
qed

lemma rgx_search_pieces:
  "rgx_search s = Some (pre, g, post) \<Longrightarrow>
     list_all (\<lambda>e. e \<noteq> []) (split_on CHR ''|'' (butlast (tl g)))"
proof (induction s)
  case Nil
  then show ?case by simp
next
  case (Cons c cs)
  show ?case
  proof (cases "match_here (c # cs)")
    case None
    with Cons show ?thesis by simp
  next
    case (Some t)
    with Cons.prems have "match_here (c # cs) = Some (pre, g, post)" by simp
    then show ?thesis by (rule match_here_pieces)
  qed
qed

lemma parse_or_loop_nonempty:
  "list_all (\<lambda>r. r \<noteq> []) rules \<Longrightarrow> list_all (\<lambda>r. r \<noteq> []) acc \<Longrightarrow>
     list_all (\<lambda>r. r \<noteq> []) (fst (parse_or_loop rules acc added))"
proof (induction rules arbitrary: acc added)
  case Nil
  then show ?case by simp
next
  case (Cons rule rest)
  show ?case
  proof (cases "rgx_search rule")
    case None
    with Cons show ?thesis by simp
  next
    case (Some t)
    obtain pre g post where t: "t = (pre, g, post)" by (cases t)
    with Some have "list_all (\<lambda>e. e \<noteq> []) (split_on CHR ''|'' (butlast (tl g)))"
      by (simp add: rgx_search_pieces)
    then have "list_all (\<lambda>r. r \<noteq> [])
        (acc @ map (\<lambda>elt. pre @ elt @ post) (split_on CHR ''|'' (butlast (tl g))))"
      using Cons.prems(2) by (auto simp: list_all_iff)
    with Cons.IH Cons.prems(1) Some t show ?thesis by simp
  qed
qed

lemma parse_or_nonempty:
  "list_all (\<lambda>r. r \<noteq> []) rules \<Longrightarrow> list_all (\<lambda>r. r \<noteq> []) (parse_or rules)"
proof (induction rules rule: parse_or.induct)
  case (1 rules_origin)
  obtain new_rules added where l: "parse_or_loop rules_origin [] False = (new_rules, added)"
    by (cases "parse_or_loop rules_origin [] False")
  with parse_or_loop_nonempty [OF "1.prems", of "[]" False]
  have n: "list_all (\<lambda>r. r \<noteq> []) new_rules" by simp
  show ?case
  proof (cases added)
    case True
    then have "\<not> \<not> added" by simp
    from "1.IH" [OF l [symmetric] this n]
    have "list_all (\<lambda>r. r \<noteq> []) (parse_or new_rules)" by simp
    with l True show ?thesis by (simp add: parse_or.simps [of rules_origin])
  next
    case False
    with l n show ?thesis by (simp add: parse_or.simps [of rules_origin])
  qed
qed

lemma proc_loop_nonempty:
  "list_all (\<lambda>r. r \<noteq> []) rules \<Longrightarrow> \<exists>globs. proc_loop rules acc = Inr globs"
proof (induction rules arbitrary: acc)
  case Nil
  then show ?case by simp
next
  case (Cons r rs)
  from Cons.prems have "r \<noteq> []" by simp
  then have "\<exists>r'. tail_rewrite r = Inr r' \<and> r' \<noteq> []"
    by (simp add: tail_rewrite_def)
  then obtain r' where t: "tail_rewrite r = Inr r'" and "r' \<noteq> []" by blast
  then have "\<exists>acc'. head_rewrite r' acc = Inr acc'"
    by (cases r') (simp_all add: head_rewrite_def Let_def)
  then obtain acc' where "head_rewrite r' acc = Inr acc'" by blast
  with t Cons show ?case by (simp add: proc_rule_def)
qed

lemma proc_nonempty_rules:
  "list_all (\<lambda>r. r \<noteq> []) rules \<Longrightarrow> \<exists>globs. proc rules = Inr globs"
  unfolding proc_def by (intro proc_loop_nonempty parse_or_nonempty)

lemma exception_ignore_loop_nonempty:
  "list_all (\<lambda>r. r \<noteq> []) rules \<Longrightarrow> \<exists>res. exception_ignore_loop rules ig ex = Inr res"
  by (induction rules arbitrary: ig ex) (auto split: list.splits)

lemma exception_ignore_nonempty_rules:
  "list_all (\<lambda>r. r \<noteq> []) rules \<Longrightarrow> \<exists>res. exception_ignore rules = Inr res"
  unfolding exception_ignore_def by (rule exception_ignore_loop_nonempty)

section \<open>Properties of load\_ignore\_rules\<close>

lemma slashes_prefix: "(2 \<le> length s \<and> take 2 s = ''//'') = prefix ''//'' s"
proof
  assume "2 \<le> length s \<and> take 2 s = ''//''"
  then have "s = ''//'' @ drop 2 s" by (metis append_take_drop_id)
  then show "prefix ''//'' s" by (metis prefixI)
next
  assume "prefix ''//'' s"
  then show "2 \<le> length s \<and> take 2 s = ''//''" by (auto simp: prefix_def)
qed

lemma starts_with_hash: "(case t of [] \<Rightarrow> False | c # cs \<Rightarrow> c = CHR ''#'') = prefix ''#'' t"
  by (cases t) auto

lemma hash_comment_prefix: "hash_comment s = prefix ''#'' (dropWhile space_char s)"
  unfolding hash_comment_def by (rule starts_with_hash)

lemma load_loop_filter:
  "load_loop ls acc = acc @ filter (\<lambda>line. \<not> skipped line) (map strip ls)"
proof (induction ls arbitrary: acc)
  case Nil
  then show ?case by simp
next
  case (Cons l ls)
  show ?case
    using Cons.IH by (simp add: Let_def slashes_prefix hash_comment_prefix skipped_def)
qed

lemma walk_missing:
  "(walk nd a seen rest = Inl FileNotFoundError) =
     (\<exists>q. prefix q rest \<and> nd (Path a (seen @ q)) = None \<and>
          (\<forall>r. strict_prefix r q \<longrightarrow> nd (Path a (seen @ r)) = Some Directory))"
proof (induction rest arbitrary: seen)
  case Nil
  then show ?case by (auto split: option.splits)
next
  case (Cons c cs)
  show ?case
  proof (cases "nd (Path a seen)")
    case None
    then have "prefix [] (c # cs) \<and> nd (Path a (seen @ [])) = None \<and>
          (\<forall>r. strict_prefix r [] \<longrightarrow> nd (Path a (seen @ r)) = Some Directory)"
      by simp
    then have "\<exists>q. prefix q (c # cs) \<and> nd (Path a (seen @ q)) = None \<and>
          (\<forall>r. strict_prefix r q \<longrightarrow> nd (Path a (seen @ r)) = Some Directory)"
      by blast
    with None show ?thesis by simp
  next
    case (Some n)
    show ?thesis
    proof (cases n)
      case Directory
      have "(\<exists>q. prefix q (c # cs) \<and> nd (Path a (seen @ q)) = None \<and>
              (\<forall>r. strict_prefix r q \<longrightarrow> nd (Path a (seen @ r)) = Some Directory))
          = (\<exists>q. prefix q cs \<and> nd (Path a ((seen @ [c]) @ q)) = None \<and>
              (\<forall>r. strict_prefix r q \<longrightarrow> nd (Path a ((seen @ [c]) @ r)) = Some Directory))"
        (is "?L = ?R")
      proof
        assume ?L
        then obtain q where q: "prefix q (c # cs)" "nd (Path a (seen @ q)) = None"
          "\<forall>r. strict_prefix r q \<longrightarrow> nd (Path a (seen @ r)) = Some Directory"
          by blast
        from q(2) Some have "q \<noteq> []" by auto
        with q(1) obtain q' where q': "q = c # q'" "prefix q' cs"
          by (cases q) auto
        have "\<forall>r. strict_prefix r q' \<longrightarrow> nd (Path a ((seen @ [c]) @ r)) = Some Directory"
        proof (intro allI impI)
          fix r assume "strict_prefix r q'"
          then have "strict_prefix (c # r) q" using q'(1) by simp
          with q(3) show "nd (Path a ((seen @ [c]) @ r)) = Some Directory" by fastforce
        qed
        with q' q(2) show ?R by auto
      next
        assume ?R
        then obtain q where q: "prefix q cs" "nd (Path a ((seen @ [c]) @ q)) = None"
          "\<forall>r. strict_prefix r q \<longrightarrow> nd (Path a ((seen @ [c]) @ r)) = Some Directory"
          by blast
        have "\<forall>r. strict_prefix r (c # q) \<longrightarrow> nd (Path a (seen @ r)) = Some Directory"
        proof (intro allI impI)
          fix r assume r: "strict_prefix r (c # q)"
          show "nd (Path a (seen @ r)) = Some Directory"
          proof (cases r)
            case Nil
            with Some Directory show ?thesis by simp
          next
            case (Cons x r')
            with r have "x = c" "strict_prefix r' q" by simp_all
            with q(3) Cons show ?thesis by fastforce
          qed
        qed
        moreover from q(1) have "prefix (c # q) (c # cs)" by simp
        moreover from q(2) have "nd (Path a (seen @ c # q)) = None" by simp
        ultimately show ?L by blast
      qed
      with Cons.IH [of "seen @ [c]"] Some Directory show ?thesis by simp
    next
      case (Regular r ls)
      have "\<not> (\<exists>q. prefix q (c # cs) \<and> nd (Path a (seen @ q)) = None \<and>
          (\<forall>r. strict_prefix r q \<longrightarrow> nd (Path a (seen @ r)) = Some Directory))"
      proof
        assume "\<exists>q. prefix q (c # cs) \<and> nd (Path a (seen @ q)) = None \<and>
          (\<forall>r. strict_prefix r q \<longrightarrow> nd (Path a (seen @ r)) = Some Directory)"
        then obtain q where q: "nd (Path a (seen @ q)) = None"
          "\<forall>r. strict_prefix r q \<longrightarrow> nd (Path a (seen @ r)) = Some Directory"
          by blast
        from q(1) Some have "q \<noteq> []" by auto
        then have "strict_prefix [] q" by (cases q) simp_all
        with q(2) have "nd (Path a (seen @ [])) = Some Directory" by blast
        with Some Regular show False by simp
      qed
      with Some Regular show ?thesis by simp
    qed
  qed
qed

lemma missing_component_iff:
  "missing_component env name =
     (name = [] \<or>
      (\<exists>q. prefix q (parts (parse_path name)) \<and>
           fs_node env (Path (anchor (parse_path name)) q) = None \<and>
           (\<forall>r. strict_prefix r q \<longrightarrow>
                fs_node env (Path (anchor (parse_path name)) r) = Some Directory)))"
  unfolding missing_component_def list_ex_iff list_all_iff strict_prefix_def Ball_def Bex_def
    in_set_prefixes
  by blast

lemma os_stat_missing:
  "(os_stat env name = Inl FileNotFoundError) = missing_component env name"
proof (cases "name = []")
  case True
  then show ?thesis by (simp add: os_stat_def missing_component_def)
next
  case False
  let ?w = "walk (fs_node env) (anchor (parse_path name)) [] (parts (parse_path name))"
  have "(os_stat env name = Inl FileNotFoundError) = (?w = Inl FileNotFoundError)"
    using False by (auto simp: os_stat_def split: sum.splits node.splits)
  also have "\<dots> = missing_component env name"
    using False walk_missing [of "fs_node env" "anchor (parse_path name)" "[]"]
    by (simp add: missing_component_iff)
  finally show ?thesis .
qed

lemma os_open_missing:
  "(os_open env name = Inl FileNotFoundError) = missing_component env name"
proof -
  have "(os_open env name = Inl FileNotFoundError) = (os_stat env name = Inl FileNotFoundError)"
    by (auto simp: os_open_def split: sum.splits node.splits)
  then show ?thesis by (simp add: os_stat_missing)
qed

text \<open>
  C8, as the code has it. \<open>load_ignore_rules\<close> raises \<open>IgnoreFileError\<close> exactly when
  opening the expanded path fails for a missing name: the path is empty, or one of
  its components names nothing although everything before it is a directory. The error
  wraps \<open>FileNotFoundError\<close>, and the path then does not exist. When the path names a
  regular file that can be read, the result is the list of its stripped lines that
  are not skipped, in file order.
\<close>

theorem load_ignore_rules_missing_component:
  "((\<exists>e. load_ignore_rules env file_path = Inl (IgnoreFileError e))
      = missing_component env (os_expanduser env file_path))
   \<and> (\<forall>e. load_ignore_rules env file_path = Inl (IgnoreFileError e) \<longrightarrow>
         e = FileNotFoundError \<and> \<not> path_exists env (os_expanduser env file_path))
   \<and> (\<forall>lines. os_stat env (os_expanduser env file_path) = Inr (Regular True lines) \<longrightarrow>
         load_ignore_rules env file_path
           = Inr (filter (\<lambda>line. \<not> skipped line) (map strip lines)))"
proof (intro conjI allI impI)
  let ?name = "os_expanduser env file_path"
  have "(\<exists>e. load_ignore_rules env file_path = Inl (IgnoreFileError e))
      = (os_open env ?name = Inl FileNotFoundError)"
    by (auto simp: load_ignore_rules_def split: sum.splits)
  then show "(\<exists>e. load_ignore_rules env file_path = Inl (IgnoreFileError e))
      = missing_component env ?name"
    by (simp add: os_open_missing)
next
  fix e
  assume "load_ignore_rules env file_path = Inl (IgnoreFileError e)"
  then show "e = FileNotFoundError"
    by (auto simp: load_ignore_rules_def split: sum.splits if_splits)
next
  fix e
  assume "load_ignore_rules env file_path = Inl (IgnoreFileError e)"
  then have "os_open env (os_expanduser env file_path) = Inl FileNotFoundError"
    by (auto simp: load_ignore_rules_def split: sum.splits if_splits)
  then have "\<exists>x. os_stat env (os_expanduser env file_path) = Inl x"
    by (auto simp: os_open_def split: sum.splits node.splits if_splits)
  then show "\<not> path_exists env (os_expanduser env file_path)"
    by (auto simp: path_exists_def)
next
  fix lines
  assume "os_stat env (os_expanduser env file_path) = Inr (Regular True lines)"
  then show "load_ignore_rules env file_path
      = Inr (filter (\<lambda>line. \<not> skipped line) (map strip lines))"
    by (simp add: load_ignore_rules_def os_open_def load_loop_filter)
qed

theorem load_ignore_rules_missing_component_witness:
  "missing_component project_fs (os_expanduser project_fs ''~/.none'') \<and>
   load_ignore_rules project_fs ''~/.none'' = Inl (IgnoreFileError FileNotFoundError) \<and>
   \<not> path_exists project_fs (os_expanduser project_fs ''~/.none'') \<and>
   load_ignore_rules project_fs ''~/.farignore'' = Inr [''valid.txt'']"
proof -
  have m: "missing_component project_fs (os_expanduser project_fs ''~/.none'')"
    by code_simp
  with load_ignore_rules_missing_component [of project_fs "''~/.none''"]
  obtain e where e: "load_ignore_rules project_fs ''~/.none'' = Inl (IgnoreFileError e)"
    by blast
  with load_ignore_rules_missing_component [of project_fs "''~/.none''"]
  have x: "e = FileNotFoundError"
    "\<not> path_exists project_fs (os_expanduser project_fs ''~/.none'')"
    by blast+
  have "os_stat project_fs (os_expanduser project_fs ''~/.farignore'')
      = Inr (Regular True
          [''  # comment'' @ [CHR 0x0A], [CHR 0x0A], ''//old-rule'' @ [CHR 0x0A],
           ''valid.txt'' @ [CHR 0x0A]])"
    by code_simp
  with load_ignore_rules_missing_component [of project_fs "''~/.farignore''"]
  have "load_ignore_rules project_fs ''~/.farignore''
      = Inr (filter (\<lambda>line. \<not> skipped line)
          (map strip [''  # comment'' @ [CHR 0x0A], [CHR 0x0A], ''//old-rule'' @ [CHR 0x0A],
             ''valid.txt'' @ [CHR 0x0A]]))"
    by blast
  then have "load_ignore_rules project_fs ''~/.farignore'' = Inr [''valid.txt'']"
    by (simp add: strip_def skipped_def space_char_def)
  with m e x show ?thesis by simp
qed

text \<open>
  The error is not raised for every path that does not exist: below the regular file
  \<open>a.txt\<close> nothing exists, and opening such a path raises \<open>NotADirectoryError\<close>, which
  \<open>load_ignore_rules\<close> lets through as it is.
\<close>

theorem load_ignore_rules_not_a_directory_counterexample:
  "\<not> path_exists project_fs ''/home/u/proj/a.txt/x'' \<and>
   load_ignore_rules project_fs ''/home/u/proj/a.txt/x'' = Inl (Raised NotADirectoryError)"
  by code_simp

section \<open>Properties of far\_glob\<close>

lemma split_on_no_sep_in: "x \<in> set (split_on sep s) \<Longrightarrow> sep \<notin> set x"
proof (induction s arbitrary: x)
  case Nil
  then show ?case by simp
next
  case (Cons c cs)
  then show ?case
    by (cases "split_on sep cs") (auto split: if_splits)
qed

lemma parse_path_wf: "wf_parts (parts (parse_path s))"
  by (auto simp: wf_parts_def parse_path_def list_all_iff dest: split_on_no_sep_in)

lemma glob_all_wf:
  "glob_all env root rules = Inr files \<Longrightarrow> list_all (\<lambda>f. wf_parts (parts f)) files"
proof (induction rules arbitrary: files)
  case Nil
  then show ?case by simp
next
  case (Cons rule rules)
  from Cons.prems obtain found others where
    "glob_all env root rules = Inr others"
    and f: "files = filter (fs_is_file env) (map parse_path found) @ others"
    by (auto split: sum.splits)
  from Cons.IH [OF this(1)] f show ?case
    by (auto simp: list_all_iff parse_path_wf)
qed

lemma glob_rules_files:
  "glob_rules env root rules = Inr files \<Longrightarrow>
     distinct files \<and> list_all (\<lambda>f. wf_parts (parts f)) files"
  by (auto simp: glob_rules_def list_all_iff split: sum.splits if_splits dest!: glob_all_wf)

lemma str_path_inj:
  assumes "wf_parts ps" and "wf_parts qs"
    and "str_path (Path [] ps) = str_path (Path [] qs)"
  shows "ps = qs"
proof -
  have sp: "split_on CHR ''/'' (join_with CHR ''/'' xs) = xs" if "wf_parts xs" "xs \<noteq> []" for xs
    using that by (intro split_on_join) (auto simp: wf_parts_def list_all_iff)
  have dot: "join_with CHR ''/'' xs \<noteq> ''.''" if "wf_parts xs" "xs \<noteq> []" for xs
  proof
    assume "join_with CHR ''/'' xs = ''.''"
    then have "split_on CHR ''/'' (join_with CHR ''/'' xs) = [''.'']" by simp
    with sp [OF that] have "xs = [''.'']" by simp
    with that(1) show False by (simp add: wf_parts_def)
  qed
  show ?thesis
  proof (cases "ps = []")
    case True
    with assms dot [of qs] show ?thesis by (auto simp: str_path_def split: if_splits)
  next
    case False
    with assms dot [of ps] have "qs \<noteq> []"
      and "join_with CHR ''/'' ps = join_with CHR ''/'' qs"
      by (auto simp: str_path_def split: if_splits)
    with sp [of ps] sp [of qs] False assms(1,2) show ?thesis by metis
  qed
qed

lemma rel_str_inj:
  assumes "wf_parts (parts f)" and "wf_parts (parts g)"
    and "rel_str root f = Inr s" and "rel_str root g = Inr s"
  shows "f = g"
proof -
  let ?to = "parse_path root"
  let ?n = "length (parts ?to)"
  from assms(3) have f: "anchor f = anchor ?to" "prefix (parts ?to) (parts f)"
    and sf: "s = str_path (Path [] (drop ?n (parts f)))"
    by (auto simp: rel_str_def relative_to_def Let_def split: if_splits)
  from assms(4) have g: "anchor g = anchor ?to" "prefix (parts ?to) (parts g)"
    and sg: "s = str_path (Path [] (drop ?n (parts g)))"
    by (auto simp: rel_str_def relative_to_def Let_def split: if_splits)
  have "wf_parts (drop ?n (parts f))" "wf_parts (drop ?n (parts g))"
    using assms(1,2) by (auto simp: wf_parts_def list_all_iff dest: in_set_dropD)
  with sf sg have "drop ?n (parts f) = drop ?n (parts g)"
    by (intro str_path_inj) simp_all
  moreover from f(2) have "parts f = parts ?to @ drop ?n (parts f)"
    by (auto simp: prefix_def)
  moreover from g(2) have "parts g = parts ?to @ drop ?n (parts g)"
    by (auto simp: prefix_def)
  ultimately have "parts f = parts g" by simp
  with f(1) g(1) show ?thesis by (simp add: path.expand)
qed

lemma rel_strs_map: "rel_strs root files = Inr ss \<Longrightarrow> map (rel_str root) files = map Inr ss"
  by (induction files arbitrary: ss) (auto split: sum.splits)

lemma rel_strs_distinct:
  assumes "rel_strs root files = Inr ss" and "distinct files"
    and "list_all (\<lambda>f. wf_parts (parts f)) files"
  shows "distinct ss"
proof -
  from assms(1) have m: "map (rel_str root) files = map Inr ss" by (rule rel_strs_map)
  have "inj_on (rel_str root) (set files)"
  proof (rule inj_onI)
    fix f g
    assume fg: "f \<in> set files" "g \<in> set files" "rel_str root f = rel_str root g"
    from fg(1) m obtain s where s: "rel_str root f = Inr s"
      by (metis (no_types, lifting) imageE image_eqI list.set_map)
    with fg assms(3) show "f = g"
      by (intro rel_str_inj [of f g root s]) (auto simp: list_all_iff)
  qed
  with assms(2) have "distinct (map (rel_str root) files)" by (simp add: distinct_map)
  with m have "distinct (map (Inr :: string \<Rightarrow> py_exn + string) ss)" by simp
  then show ?thesis by (simp add: distinct_map)
qed

lemma far_glob_Inr:
  assumes "far_glob env root rules ignore_rules = Inr result"
  obtains ignore_rules1 exception_ignore_rules1 rules2 ignore_rules2 exception_ignore_rules2
    files ignore_files exception_ignore_files strs
  where "exception_ignore ignore_rules = Inr (ignore_rules1, exception_ignore_rules1)"
    and "proc rules = Inr rules2"
    and "proc ignore_rules1 = Inr ignore_rules2"
    and "proc exception_ignore_rules1 = Inr exception_ignore_rules2"
    and "glob_rules env root rules2 = Inr files"
    and "glob_rules env root ignore_rules2 = Inr ignore_files"
    and "glob_rules env root exception_ignore_rules2 = Inr exception_ignore_files"
    and "rel_strs root (filter (kept ignore_files exception_ignore_files) files) = Inr strs"
    and "result = sort strs"
  using assms unfolding far_glob_def
  by (auto split: sum.splits prod.splits)

lemma kept_set:
  "set (filter (kept ignored excepted) included)
     = (set included - set ignored) \<union> (set included \<inter> set ignored \<inter> set excepted)"
  by (auto simp: kept_def)

text \<open>
  C1. When \<open>far_glob\<close> returns, its result is the relative path strings of exactly the
  files in (Included - Ignored) \<union> (Included \<inter> Ignored \<inter> ExceptionIgnored), where the
  three sets are the matches of the include rules, of the ignore rules without sign and
  of the exception rules; and an included file appears in the result if and only if it
  is not ignored, or is ignored and also excepted.
\<close>

theorem far_glob_set_algebra:
  assumes "far_glob env root rules ignore_rules = Inr result"
  shows "\<exists>ignore_rules1 exception_rules1 included ignored excepted.
           exception_ignore ignore_rules = Inr (ignore_rules1, exception_rules1) \<and>
           match_set env root rules = Inr included \<and>
           match_set env root ignore_rules1 = Inr ignored \<and>
           match_set env root exception_rules1 = Inr excepted \<and>
           Inr ` set result
             = rel_str root `
                 ((set included - set ignored) \<union> (set included \<inter> set ignored \<inter> set excepted)) \<and>
           (\<forall>f \<in> set included.
              (rel_str root f \<in> Inr ` set result)
                = (f \<notin> set ignored \<or> (f \<in> set ignored \<and> f \<in> set excepted)))"
proof -
  from assms obtain ignore_rules1 exception_rules1 rules2 ignore_rules2 exception_rules2
    included ignored excepted strs
    where ei: "exception_ignore ignore_rules = Inr (ignore_rules1, exception_rules1)"
      and p: "proc rules = Inr rules2" "proc ignore_rules1 = Inr ignore_rules2"
        "proc exception_rules1 = Inr exception_rules2"
      and g: "glob_rules env root rules2 = Inr included"
        "glob_rules env root ignore_rules2 = Inr ignored"
        "glob_rules env root exception_rules2 = Inr excepted"
      and r: "rel_strs root (filter (kept ignored excepted) included) = Inr strs"
      and s: "result = sort strs"
    by (rule far_glob_Inr)
  let ?K = "(set included - set ignored) \<union> (set included \<inter> set ignored \<inter> set excepted)"
  from p g have m: "match_set env root rules = Inr included"
    "match_set env root ignore_rules1 = Inr ignored"
    "match_set env root exception_rules1 = Inr excepted"
    by (simp_all add: match_set_def)
  from r have "map (rel_str root) (filter (kept ignored excepted) included) = map Inr strs"
    by (rule rel_strs_map)
  then have "rel_str root ` set (filter (kept ignored excepted) included) = Inr ` set strs"
    by (metis list.set_map)
  with s have img: "Inr ` set result = rel_str root ` ?K"
    by (simp only: kept_set set_sort)
  from g(1) have wf: "list_all (\<lambda>f. wf_parts (parts f)) included"
    by (simp add: glob_rules_files)
  have iff: "(rel_str root f \<in> Inr ` set result)
      = (f \<notin> set ignored \<or> (f \<in> set ignored \<and> f \<in> set excepted))"
    if f: "f \<in> set included" for f
  proof
    assume "rel_str root f \<in> Inr ` set result"
    with img obtain h where h: "h \<in> ?K" and eq: "rel_str root f = rel_str root h"
      by auto
    from h img obtain x where x: "rel_str root h = Inr x" by blast
    from h have "h \<in> set included" by blast
    with f wf have "wf_parts (parts f)" "wf_parts (parts h)"
      by (simp_all add: list_all_iff)
    with eq x have "f = h" by (intro rel_str_inj [of f h root x]) simp_all
    with h show "f \<notin> set ignored \<or> (f \<in> set ignored \<and> f \<in> set excepted)" by blast
  next
    assume "f \<notin> set ignored \<or> (f \<in> set ignored \<and> f \<in> set excepted)"
    with f have "f \<in> ?K" by blast
    with img show "rel_str root f \<in> Inr ` set result" by blast
  qed
  from ei m img iff show ?thesis by blast
qed

theorem far_glob_set_algebra_witness:
  "far_glob project_fs ''/home/u/proj'' [''*''] [''sub/'', ''!sub/b.txt'']
     = Inr [''a.txt'', ''sub/b.txt''] \<and>
   (\<exists>included ignored excepted.
      match_set project_fs ''/home/u/proj'' [''*''] = Inr included \<and>
      match_set project_fs ''/home/u/proj'' [''sub/''] = Inr ignored \<and>
      match_set project_fs ''/home/u/proj'' [''sub/b.txt''] = Inr excepted \<and>
      Inr ` set [''a.txt'', ''sub/b.txt'']
        = rel_str ''/home/u/proj'' `
            ((set included - set ignored) \<union> (set included \<inter> set ignored \<inter> set excepted)))"
proof -
  have e: "far_glob project_fs ''/home/u/proj'' [''*''] [''sub/'', ''!sub/b.txt'']
      = Inr [''a.txt'', ''sub/b.txt'']"
    by code_simp
  have x: "exception_ignore [''sub/'', ''!sub/b.txt''] = Inr ([''sub/''], [''sub/b.txt''])"
    by (simp add: exception_ignore_def)
  from far_glob_set_algebra [OF e] x e show ?thesis by auto
qed

text \<open>
  C9. When \<open>far_glob\<close> returns, the list of relative path strings is sorted in the
  lexicographic order of the strings and has no duplicates.
\<close>

theorem far_glob_sorted_distinct:
  assumes "far_glob env root rules ignore_rules = Inr result"
  shows "sorted result \<and> distinct result"
proof -
  from assms obtain rules2 included ignored excepted strs
    where g: "glob_rules env root rules2 = Inr included"
      and r: "rel_strs root (filter (kept ignored excepted) included) = Inr strs"
      and s: "result = sort strs"
    by (rule far_glob_Inr)
  from g have "distinct included" "list_all (\<lambda>f. wf_parts (parts f)) included"
    by (simp_all add: glob_rules_files)
  then have "distinct (filter (kept ignored excepted) included)"
    and "list_all (\<lambda>f. wf_parts (parts f)) (filter (kept ignored excepted) included)"
    by (simp_all add: list_all_iff)
  with r have "distinct strs" by (rule rel_strs_distinct)
  with s show ?thesis by simp
qed

theorem far_glob_sorted_distinct_witness:
  "far_glob project_fs ''/home/u/proj'' [''*''] []
     = Inr [''a.txt'', ''sub/b.txt'', ''sub/c.log''] \<and>
   sorted [''a.txt'', ''sub/b.txt'', ''sub/c.log''] \<and>
   distinct [''a.txt'', ''sub/b.txt'', ''sub/c.log'']"
proof -
  have e: "far_glob project_fs ''/home/u/proj'' [''*''] []
      = Inr [''a.txt'', ''sub/b.txt'', ''sub/c.log'']"
    by code_simp
  from e far_glob_sorted_distinct [OF e] show ?thesis by simp
qed

text \<open>
  C2. \<open>glob_rules\<close> expands the home directory of the root, but \<open>far_glob\<close> then asks
  for the path of each file relative to the root as it was given. With the root
  \<open>~/proj\<close> and a file to report, that is a \<open>ValueError\<close>, where the expanded root
  gives the list of files.
\<close>

theorem far_glob_home_root_raises:
  "far_glob project_fs ''~/proj'' [''*''] [] = Inl (Raised ValueError) \<and>
   far_glob project_fs ''/home/u/proj'' [''*''] []
     = Inr [''a.txt'', ''sub/b.txt'', ''sub/c.log'']"
  by code_simp

end
